theory Spec2Isabelle
  imports Main "HOL-Library.FSet" "HOL-Library.Finite_Map"
begin

section \<open>Data model of package conntrack\<close>

text \<open>
  Modelled from the spec: the declaration of the type \<open>Entry\<close> is not among the source
  files. An entry is the key of a tracked connection, "composed of protocol, local
  address, remote address (all opaque strings)", with structural equality; these are the
  three fields \<open>PrintStatus\<close> prints and the tests construct.
\<close>

record Entry =
  Protocol :: string
  LocalAddr :: string
  RemoteAddr :: string

type_synonym reason = string

type_synonym priority = int

text \<open>
  Modelled from the spec: the declaration of the type \<open>EntryHandle\<close> is not among the
  source files either; its fields are the ones \<open>Wait\<close> initialises. The sets of the
  instance hold pointers to handles, and "identity is reference identity". A handle value
  therefore carries its address \<open>ptr\<close> together with the fields that \<open>Wait\<close> sets and that
  are never assigned again. The field \<open>e\<close> of the source is called \<open>ent\<close> here; the back
  reference \<open>i\<close> is left out, since there is one instance, and so is \<open>expires\<close>, which
  \<open>Wait\<close> leaves zero and only \<open>PrintStatus\<close> reads.

  A priority and the limit \<open>maxEntries\<close> are of the type \<open>int\<close> of Go. They are only
  compared, never computed with, so the integers stand for them.
\<close>

record EntryHandle =
  ptr :: nat
  reason :: reason
  ent :: Entry
  priority :: priority
  created :: int

text \<open>
  The persistent containers of the library \<open>stmutil\<close>: a \<open>Settish\<close> is a finite set and a
  \<open>Mappish\<close> a finite map. \<open>Set\<close> is \<^const>\<open>fmupd\<close>, \<open>Delete\<close> is \<^const>\<open>fmdrop\<close>,
  \<open>Get\<close> is \<^const>\<open>fmlookup\<close>, \<open>Add\<close> is \<^const>\<open>finsert\<close>, and \<open>Len\<close> counts the keys
  of a map and the elements of a set.
\<close>

type_synonym Settish = "EntryHandle fset"

type_synonym 'k Mappish = "('k, Settish) fmap"

definition Len :: "('k, 'v) fmap \<Rightarrow> int" where
  "Len m = int (fcard (fmdom m))"

text \<open>
  The comparator given to \<open>NewSortedMap\<close> in \<open>NewInstance\<close>: a key comes before another
  one when it is numerically greater.
\<close>

definition less_priority :: "priority \<Rightarrow> priority \<Rightarrow> bool" where
  "less_priority l r = (l > r)"

text \<open>
  Modelled from the spec: \<open>iter.First\<close> (package \<open>iter\<close> of this repository) is not among
  the source files, and the sorted map it iterates belongs to \<open>stmutil\<close>. The by-priority
  map "orders priorities descending" and \<open>topPriority\<close> is "the highest priority value
  among all currently registered pending waiters": the result is the first key in the
  order of \<^const>\<open>less_priority\<close>, that is the greatest key, and nothing when the map
  is empty (lemma \<open>First_less_priority\<close> below).
\<close>

definition First :: "(priority, 'v) fmap \<Rightarrow> priority option" where
  "First m = (if fmdom m = {||} then None else Some (fMax (fmdom m)))"

record Instance =
  maxEntries :: int
  noMaxEntries :: bool
  Timeout :: "Entry \<Rightarrow> int"
  entries :: "Entry Mappish"
  waitersByPriority :: "priority Mappish"
  waitersByReason :: "reason Mappish"
  waitersByEntry :: "Entry Mappish"
  waiters :: Settish

definition NewInstance :: Instance where
  "NewInstance =
     \<lparr> maxEntries = 2 ^ 14,
       noMaxEntries = False,
       Timeout = (\<lambda>e. 30 * 1000000000),
       entries = fmempty,
       waitersByPriority = fmempty,
       waitersByReason = fmempty,
       waitersByEntry = fmempty,
       waiters = {||} \<rparr>"

section \<open>Operations on the instance\<close>

definition SetNoMaxEntries :: "Instance \<Rightarrow> Instance" where
  "SetNoMaxEntries i = i\<lparr>noMaxEntries := True\<rparr>"

definition SetMaxEntries :: "int \<Rightarrow> Instance \<Rightarrow> Instance" where
  "SetMaxEntries n i = (i\<lparr>noMaxEntries := False\<rparr>)\<lparr>maxEntries := n\<rparr>"

definition deleteFromMapToSet ::
  "'k Mappish \<Rightarrow> 'k \<Rightarrow> EntryHandle \<Rightarrow> 'k Mappish \<times> bool" where
  "deleteFromMapToSet m mapKey setElem =
     (case fmlookup m mapKey of
        None \<Rightarrow> (m, True)
      | Some s0 \<Rightarrow>
          (let s = s0 |-| {|setElem|} in
           if fcard s = 0 then (fmdrop mapKey m, True)
           else (fmupd mapKey s m, False)))"

definition addToMapToSet :: "'k Mappish \<Rightarrow> 'k \<Rightarrow> EntryHandle \<Rightarrow> 'k Mappish" where
  "addToMapToSet m mapKey setElem =
     (let s = (case fmlookup m mapKey of
                 Some s0 \<Rightarrow> finsert setElem s0
               | None \<Rightarrow> finsert setElem {||})
      in fmupd mapKey s m)"

definition remove :: "EntryHandle \<Rightarrow> Instance \<Rightarrow> Instance" where
  "remove eh i = i\<lparr>entries := fst (deleteFromMapToSet (entries i) (ent eh) eh)\<rparr>"

definition deleteWaiter :: "EntryHandle \<Rightarrow> Instance \<Rightarrow> Instance" where
  "deleteWaiter eh i =
     (let i1 = i\<lparr>waiters := waiters i |-| {|eh|}\<rparr>;
          i2 = i1\<lparr>waitersByPriority :=
                    fst (deleteFromMapToSet (waitersByPriority i1) (priority eh) eh)\<rparr>;
          i3 = i2\<lparr>waitersByReason :=
                    fst (deleteFromMapToSet (waitersByReason i2) (reason eh) eh)\<rparr>
      in i3\<lparr>waitersByEntry := fst (deleteFromMapToSet (waitersByEntry i3) (ent eh) eh)\<rparr>)"

definition addWaiter :: "EntryHandle \<Rightarrow> Instance \<Rightarrow> Instance" where
  "addWaiter eh i =
     (let i1 = i\<lparr>waitersByPriority := addToMapToSet (waitersByPriority i) (priority eh) eh\<rparr>;
          i2 = i1\<lparr>waitersByReason := addToMapToSet (waitersByReason i1) (reason eh) eh\<rparr>;
          i3 = i2\<lparr>waitersByEntry := addToMapToSet (waitersByEntry i2) (ent eh) eh\<rparr>
      in i3\<lparr>waiters := finsert eh (waiters i3)\<rparr>)"

text \<open>
  The admission transaction of \<open>Wait\<close> (the function given to \<open>stm.Atomically\<close>): it
  commits and returns a boolean, asks to be run again once a variable it read has
  changed, or panics.
\<close>

datatype tx_result = Return bool Instance | Retry | Panic string

definition haveRoom :: "Instance \<Rightarrow> bool" where
  "haveRoom i = (noMaxEntries i \<or> Len (entries i) < maxEntries i)"

definition Wait_tx :: "Instance \<Rightarrow> bool \<Rightarrow> Entry \<Rightarrow> priority \<Rightarrow> EntryHandle \<Rightarrow> tx_result" where
  "Wait_tx i ctx_done e p eh =
     (let es = entries i in
      case fmlookup es e of
        Some s \<Rightarrow> Return True (i\<lparr>entries := fmupd e (finsert eh s) es\<rparr>)
      | None \<Rightarrow>
          (case First (waitersByPriority i) of
             None \<Rightarrow> Panic ''y u no waiting''
           | Some topPrio \<Rightarrow>
               if haveRoom i \<and> p = topPrio
               then Return True (i\<lparr>entries := addToMapToSet es e eh\<rparr>)
               else if ctx_done then Return False i
               else Retry))"

text \<open>Lines 154 to 157 of \<open>Wait\<close>: the handle, or nil when the transaction returned false.\<close>

definition Wait_return :: "bool \<Rightarrow> EntryHandle \<Rightarrow> EntryHandle option" where
  "Wait_return success eh = (if success then Some eh else None)"

section \<open>Concurrent calls\<close>

text \<open>
  Transactions run one at a time, so an execution is a sequence of atomic actions. A call
  of \<open>Wait\<close> is three kinds of transaction in program order: \<open>addWaiter\<close> at the call
  (with the allocation of the handle, which no other call can see before), the admission
  transaction, run again after each retry, and \<open>deleteWaiter\<close>, after which the call
  returns. A call is identified with the address of the handle it allocates; its local
  variables are the handle, the value of the variable \<open>ctxDone\<close> and the point it has
  reached.
\<close>

datatype pc = Pending | Decided bool | Returned "EntryHandle option" | Panicked

record Wait_call =
  handle :: EntryHandle
  ctxDone :: bool
  at :: pc

record System =
  inst :: Instance
  calls :: "nat \<rightharpoonup> Wait_call"

datatype action =
    Call_Wait nat bool Entry reason priority int
  | Ctx_Done nat
  | Attempt nat
  | Deregister nat
  | Do_SetMaxEntries int
  | Do_SetNoMaxEntries
  | Do_remove EntryHandle

text \<open>
  \<open>Call_Wait a d e r p now\<close> begins a call whose handle is allocated at the unused address
  \<open>a\<close>, with \<open>d\<close> telling whether the context is already done; \<open>Ctx_Done\<close> is the context
  of a call completing. \<open>Do_SetMaxEntries\<close>, \<open>Do_SetNoMaxEntries\<close> and \<open>Do_remove\<close> are
  the transactions of the functions they name, which any thread may run at any time and,
  for \<open>remove\<close>, with any handle. An action that cannot happen in the state gives \<open>None\<close>;
  an admission transaction that retries leaves the state as it is and may be attempted
  again. The whole program stops at a panic; here the call is marked and the others go on,
  which only adds executions.
\<close>

fun step :: "action \<Rightarrow> System \<Rightarrow> System option" where
  "step (Call_Wait a d e r p now) s =
     (case calls s a of
        Some c \<Rightarrow> None
      | None \<Rightarrow>
          (let eh = \<lparr>ptr = a, reason = r, ent = e, priority = p, created = now\<rparr> in
           Some (s\<lparr>inst := addWaiter eh (inst s),
                   calls := (calls s)(a \<mapsto> \<lparr>handle = eh, ctxDone = d, at = Pending\<rparr>)\<rparr>)))"
| "step (Ctx_Done a) s =
     (case calls s a of
        None \<Rightarrow> None
      | Some c \<Rightarrow> Some (s\<lparr>calls := (calls s)(a \<mapsto> c\<lparr>ctxDone := True\<rparr>)\<rparr>))"
| "step (Attempt a) s =
     (case calls s a of
        None \<Rightarrow> None
      | Some c \<Rightarrow>
          (case at c of
             Pending \<Rightarrow>
               (case Wait_tx (inst s) (ctxDone c) (ent (handle c)) (priority (handle c)) (handle c) of
                  Return success i' \<Rightarrow>
                    Some (s\<lparr>inst := i', calls := (calls s)(a \<mapsto> c\<lparr>at := Decided success\<rparr>)\<rparr>)
                | Retry \<Rightarrow> Some s
                | Panic msg \<Rightarrow> Some (s\<lparr>calls := (calls s)(a \<mapsto> c\<lparr>at := Panicked\<rparr>)\<rparr>))
           | _ \<Rightarrow> None))"
| "step (Deregister a) s =
     (case calls s a of
        None \<Rightarrow> None
      | Some c \<Rightarrow>
          (case at c of
             Decided success \<Rightarrow>
               Some (s\<lparr>inst := deleteWaiter (handle c) (inst s),
                       calls := (calls s)(a \<mapsto> c\<lparr>at := Returned (Wait_return success (handle c))\<rparr>)\<rparr>)
           | _ \<Rightarrow> None))"
| "step (Do_SetMaxEntries n) s = Some (s\<lparr>inst := SetMaxEntries n (inst s)\<rparr>)"
| "step Do_SetNoMaxEntries s = Some (s\<lparr>inst := SetNoMaxEntries (inst s)\<rparr>)"
| "step (Do_remove eh) s = Some (s\<lparr>inst := remove eh (inst s)\<rparr>)"

fun run :: "action list \<Rightarrow> System \<Rightarrow> System option" where
  "run [] s = Some s"
| "run (x # xs) s = (case step x s of None \<Rightarrow> None | Some s' \<Rightarrow> run xs s')"

definition start :: System where
  "start = \<lparr>inst = NewInstance, calls = Map.empty\<rparr>"

text \<open>
  Modelled from the spec: the method \<open>Done\<close> of a handle is not among the source files. It
  "records an expiry timestamp" and "schedules an asynchronous action that, once that
  duration elapses, removes this specific handle from its Entry's holder set". The expiry
  time is not part of the state here; the scheduled action, when it fires, is the
  transaction of \<open>Instance.remove\<close> with the handle. A call of \<open>Done\<close> thus contributes
  one such action at some later point of the execution, and two calls contribute two.
\<close>

definition Done_fires :: "EntryHandle \<Rightarrow> action" where
  "Done_fires eh = Do_remove eh"

section \<open>Invariants\<close>

definition in_bucket :: "'k Mappish \<Rightarrow> 'k \<Rightarrow> EntryHandle \<Rightarrow> bool" where
  "in_bucket m k h = (case fmlookup m k of None \<Rightarrow> False | Some s \<Rightarrow> h |\<in>| s)"

text \<open>No key of a map of sets is bound to the empty set.\<close>

definition no_empty :: "'k Mappish \<Rightarrow> bool" where
  "no_empty m = (\<forall>k. fmlookup m k \<noteq> Some {||})"

text \<open>
  A keyed registry indexes the flat set: a handle is in the bucket of a key exactly when it
  is a waiter and the key is its own.
\<close>

definition index_ok :: "'k Mappish \<Rightarrow> (EntryHandle \<Rightarrow> 'k) \<Rightarrow> Settish \<Rightarrow> bool" where
  "index_ok m key ws = (\<forall>k h. in_bucket m k h \<longleftrightarrow> h |\<in>| ws \<and> key h = k)"

definition registries_ok :: "Instance \<Rightarrow> bool" where
  "registries_ok i \<longleftrightarrow>
     index_ok (waitersByPriority i) priority (waiters i) \<and>
     index_ok (waitersByReason i) reason (waiters i) \<and>
     index_ok (waitersByEntry i) ent (waiters i)"

definition buckets_ok :: "Instance \<Rightarrow> bool" where
  "buckets_ok i \<longleftrightarrow>
     no_empty (entries i) \<and> no_empty (waitersByPriority i) \<and>
     no_empty (waitersByReason i) \<and> no_empty (waitersByEntry i)"

text \<open>What each call knows about its handle at the point it has reached.\<close>

definition call_ok :: "Instance \<Rightarrow> nat \<Rightarrow> Wait_call \<Rightarrow> bool" where
  "call_ok i a c \<longleftrightarrow>
     ptr (handle c) = a \<and>
     (case at c of
        Pending \<Rightarrow> handle c |\<in>| waiters i
      | Decided success \<Rightarrow> success \<or> ctxDone c
      | Returned r \<Rightarrow> handle c |\<notin>| waiters i \<and> (r = None \<longrightarrow> ctxDone c)
                      \<and> (r = None \<or> r = Some (handle c))
      | Panicked \<Rightarrow> False)"

definition system_ok :: "System \<Rightarrow> bool" where
  "system_ok s \<longleftrightarrow>
     registries_ok (inst s) \<and> buckets_ok (inst s) \<and>
     (\<forall>a c. calls s a = Some c \<longrightarrow> call_ok (inst s) a c)"

text \<open>
  Every holder in the entries table is the handle of a call whose admission transaction
  has returned \<open>true\<close>.
\<close>

definition holders_ok :: "System \<Rightarrow> bool" where
  "holders_ok s \<longleftrightarrow>
     (\<forall>k h. in_bucket (entries (inst s)) k h \<longrightarrow>
        (\<exists>c. calls s (ptr h) = Some c \<and> handle c = h \<and>
           (at c = Decided True \<or> at c = Returned (Some h))))"

text \<open>A holder is filed under its own entry.\<close>

definition holders_keyed :: "Instance \<Rightarrow> bool" where
  "holders_keyed i \<longleftrightarrow> (\<forall>k h. in_bucket (entries i) k h \<longrightarrow> ent h = k)"

text \<open>The call at \<open>a\<close> has returned and its handle \<open>h\<close> holds no entry.\<close>

definition released :: "System \<Rightarrow> nat \<Rightarrow> EntryHandle \<Rightarrow> bool" where
  "released s a h \<longleftrightarrow>
     (\<exists>c r. calls s a = Some c \<and> handle c = h \<and> at c = Returned r) \<and>
     (\<forall>k. \<not> in_bucket (entries (inst s)) k h)"

text \<open>
  The consistency of the registries as one statement about a handle: it is in the flat set
  exactly when each keyed registry has it in the bucket of its own key.
\<close>

definition registries_consistent :: "Instance \<Rightarrow> bool" where
  "registries_consistent i \<longleftrightarrow>
     (\<forall>h. h |\<in>| waiters i \<longleftrightarrow>
        in_bucket (waitersByPriority i) (priority h) h \<and>
        in_bucket (waitersByReason i) (reason h) h \<and>
        in_bucket (waitersByEntry i) (ent h) h)"

text \<open>A handle is in none of the four registries.\<close>

definition deregistered :: "Instance \<Rightarrow> EntryHandle \<Rightarrow> bool" where
  "deregistered i h \<longleftrightarrow>
     h |\<notin>| waiters i \<and>
     (\<forall>k. \<not> in_bucket (waitersByPriority i) k h) \<and>
     (\<forall>k. \<not> in_bucket (waitersByReason i) k h) \<and>
     (\<forall>k. \<not> in_bucket (waitersByEntry i) k h)"

text \<open>\<open>p\<close> is the highest priority among the pending waiters.\<close>

definition top_waiting :: "Instance \<Rightarrow> priority \<Rightarrow> bool" where
  "top_waiting i p \<longleftrightarrow>
     p |\<in>| priority |`| waiters i \<and> fBall (waiters i) (\<lambda>h. priority h \<le> p)"

text \<open>
  The two conditions under which the admission transaction commits with \<open>true\<close>: the entry
  is already held (line 133), or there is room and \<open>p\<close> is the first priority (line 142).
\<close>

definition admissible :: "Instance \<Rightarrow> Entry \<Rightarrow> priority \<Rightarrow> bool" where
  "admissible i e p \<longleftrightarrow>
     fmlookup (entries i) e \<noteq> None \<or>
     (haveRoom i \<and> First (waitersByPriority i) = Some p)"

section \<open>A contended instance\<close>

text \<open>
  A small execution used to exercise the results below. The first call takes
  \<open>entry1\<close> and returns; the limit is then set to zero and three more calls begin: one for
  the held \<open>entry1\<close>, one of priority 7 for \<open>entry2\<close>, and one of priority 0 for \<open>entry3\<close>
  whose context is already done. In \<open>opened\<close> the limit is lifted afterwards.
\<close>

definition entry1 :: Entry where
  "entry1 = \<lparr>Protocol = '''', LocalAddr = '''', RemoteAddr = ''1''\<rparr>"

definition entry2 :: Entry where
  "entry2 = \<lparr>Protocol = '''', LocalAddr = '''', RemoteAddr = ''2''\<rparr>"

definition entry3 :: Entry where
  "entry3 = \<lparr>Protocol = '''', LocalAddr = '''', RemoteAddr = ''3''\<rparr>"

definition contended :: "action list" where
  "contended =
     [Call_Wait 1 False entry1 '''' 0 0, Attempt 1, Deregister 1,
      Do_SetMaxEntries 0,
      Call_Wait 2 False entry1 ''dial'' 0 10,
      Call_Wait 3 False entry2 ''dial'' 7 20,
      Call_Wait 4 True entry3 ''announce'' 0 30]"

definition handle1 :: EntryHandle where
  "handle1 = \<lparr>ptr = 1, reason = '''', ent = entry1, priority = 0, created = 0\<rparr>"

definition handle2 :: EntryHandle where
  "handle2 = \<lparr>ptr = 2, reason = ''dial'', ent = entry1, priority = 0, created = 10\<rparr>"

definition handle3 :: EntryHandle where
  "handle3 = \<lparr>ptr = 3, reason = ''dial'', ent = entry2, priority = 7, created = 20\<rparr>"

definition handle4 :: EntryHandle where
  "handle4 = \<lparr>ptr = 4, reason = ''announce'', ent = entry3, priority = 0, created = 30\<rparr>"

definition contended_inst :: Instance where
  "contended_inst =
     \<lparr> maxEntries = 0, noMaxEntries = False, Timeout = (\<lambda>e. 30 * 1000000000),
       entries = fmupd entry1 {|handle1|} fmempty,
       waitersByPriority = fmupd 7 {|handle3|} (fmupd 0 {|handle4, handle2|} fmempty),
       waitersByReason = fmupd ''announce'' {|handle4|} (fmupd ''dial'' {|handle3, handle2|} fmempty),
       waitersByEntry = fmupd entry3 {|handle4|} (fmupd entry2 {|handle3|} (fmupd entry1 {|handle2|} fmempty)),
       waiters = {|handle4, handle3, handle2|} \<rparr>"

definition contended_state :: System where
  "contended_state =
     \<lparr> inst = contended_inst,
       calls = [1 \<mapsto> \<lparr>handle = handle1, ctxDone = False, at = Returned (Some handle1)\<rparr>,
                2 \<mapsto> \<lparr>handle = handle2, ctxDone = False, at = Pending\<rparr>,
                3 \<mapsto> \<lparr>handle = handle3, ctxDone = False, at = Pending\<rparr>,
                4 \<mapsto> \<lparr>handle = handle4, ctxDone = True, at = Pending\<rparr>] \<rparr>"

definition opened :: "action list" where
  "opened = contended @ [Do_SetNoMaxEntries]"

definition opened_state :: System where
  "opened_state = contended_state\<lparr>inst := contended_inst\<lparr>noMaxEntries := True\<rparr>\<rparr>"

text \<open>
  Three more executions. In the first a call whose context is already done finds room.
  In \<open>shared\<close> three calls return with their handles, two of them sharing \<open>entry1\<close>; in
  \<open>later\<close> the release of the first handle is followed by other transactions.
\<close>

definition cancelled_state :: System where
  "cancelled_state =
     \<lparr> inst = NewInstance\<lparr>entries := fmupd entry1 {|handle1|} fmempty\<rparr>,
       calls = [1 \<mapsto> \<lparr>handle = handle1, ctxDone = True, at = Returned (Some handle1)\<rparr>] \<rparr>"

definition shared :: "action list" where
  "shared =
     [Call_Wait 1 False entry1 '''' 0 0, Attempt 1, Deregister 1,
      Call_Wait 2 False entry1 ''dial'' 0 10, Attempt 2, Deregister 2,
      Call_Wait 3 False entry2 ''dial'' 7 20, Attempt 3, Deregister 3]"

definition shared_state :: System where
  "shared_state =
     \<lparr> inst = NewInstance
         \<lparr>entries := fmupd entry2 {|handle3|} (fmupd entry1 {|handle2, handle1|} fmempty)\<rparr>,
       calls = [1 \<mapsto> \<lparr>handle = handle1, ctxDone = False, at = Returned (Some handle1)\<rparr>,
                2 \<mapsto> \<lparr>handle = handle2, ctxDone = False, at = Returned (Some handle2)\<rparr>,
                3 \<mapsto> \<lparr>handle = handle3, ctxDone = False, at = Returned (Some handle3)\<rparr>] \<rparr>"

definition later :: "action list" where
  "later = [Do_SetMaxEntries 1, Call_Wait 4 True entry3 ''announce'' 0 30, Attempt 4]"

definition later_state :: System where
  "later_state =
     \<lparr> inst =
         \<lparr> maxEntries = 1, noMaxEntries = False, Timeout = (\<lambda>e. 30 * 1000000000),
           entries = fmupd entry2 {|handle3|} (fmupd entry1 {|handle2|} fmempty),
           waitersByPriority = fmupd 0 {|handle4|} fmempty,
           waitersByReason = fmupd ''announce'' {|handle4|} fmempty,
           waitersByEntry = fmupd entry3 {|handle4|} fmempty,
           waiters = {|handle4|} \<rparr>,
       calls = [1 \<mapsto> \<lparr>handle = handle1, ctxDone = False, at = Returned (Some handle1)\<rparr>,
                2 \<mapsto> \<lparr>handle = handle2, ctxDone = False, at = Returned (Some handle2)\<rparr>,
                3 \<mapsto> \<lparr>handle = handle3, ctxDone = False, at = Returned (Some handle3)\<rparr>,
                4 \<mapsto> \<lparr>handle = handle4, ctxDone = True, at = Decided False\<rparr>] \<rparr>"

section \<open>Properties of the map-of-sets helpers\<close>

lemma lookup_addToMapToSet:
  "fmlookup (addToMapToSet m k x) k' =
     (if k' = k then Some (finsert x (case fmlookup m k of None \<Rightarrow> {||} | Some s \<Rightarrow> s))
      else fmlookup m k')"
  by (simp add: addToMapToSet_def split: option.splits)

lemma lookup_deleteFromMapToSet:
  "fmlookup (fst (deleteFromMapToSet m k x)) k' =
     (if k' = k then
        (case fmlookup m k of None \<Rightarrow> None
         | Some s \<Rightarrow> if s |-| {|x|} = {||} then None else Some (s |-| {|x|}))
      else fmlookup m k')"
  by (simp add: deleteFromMapToSet_def Let_def split: option.splits)

lemma fmupd_same: "fmlookup m k = Some v \<Longrightarrow> fmupd k v m = m"
  by (rule fmap_ext) auto

lemma deleteFromMapToSet_twice:
  "fst (deleteFromMapToSet (fst (deleteFromMapToSet m k x)) k x) = fst (deleteFromMapToSet m k x)"
  by (rule fmap_ext) (simp add: lookup_deleteFromMapToSet split: option.splits)

lemma in_bucket_add:
  "in_bucket (addToMapToSet m k x) k' h \<longleftrightarrow> (k' = k \<and> h = x) \<or> in_bucket m k' h"
  by (auto simp: in_bucket_def lookup_addToMapToSet split: option.splits)

lemma in_bucket_delete:
  "in_bucket (fst (deleteFromMapToSet m k x)) k' h \<longleftrightarrow> in_bucket m k' h \<and> \<not> (k' = k \<and> h = x)"
  by (auto simp: in_bucket_def lookup_deleteFromMapToSet split: option.splits)

lemma in_bucket_remove:
  "in_bucket (entries (remove eh i)) k h \<longleftrightarrow> in_bucket (entries i) k h \<and> \<not> (k = ent eh \<and> h = eh)"
  by (simp add: remove_def in_bucket_delete)

lemma in_bucket_dom: "in_bucket m k h \<Longrightarrow> k |\<in>| fmdom m"
  by (auto simp: in_bucket_def split: option.splits intro: fmdomI)

lemma no_empty_add: "no_empty m \<Longrightarrow> no_empty (addToMapToSet m k x)"
  by (simp add: no_empty_def lookup_addToMapToSet)

lemma no_empty_delete: "no_empty m \<Longrightarrow> no_empty (fst (deleteFromMapToSet m k x))"
  by (simp add: no_empty_def lookup_deleteFromMapToSet split: option.splits)

lemma Len_occupied:
  assumes "no_empty m"
  shows "Len m = int (card {k. \<exists>hs. fmlookup m k = Some hs \<and> hs \<noteq> {||}})"
proof -
  from assms have "{k. \<exists>hs. fmlookup m k = Some hs \<and> hs \<noteq> {||}} = fset (fmdom m)"
    by (auto simp: no_empty_def fmlookup_dom_iff)
  then show ?thesis
    by (simp add: Len_def fcard.rep_eq)
qed

lemma index_ok_add:
  "index_ok m key ws \<Longrightarrow> index_ok (addToMapToSet m (key x) x) key (finsert x ws)"
  by (auto simp: index_ok_def in_bucket_add)

lemma index_ok_delete:
  "index_ok m key ws \<Longrightarrow> index_ok (fst (deleteFromMapToSet m (key x) x)) key (ws |-| {|x|})"
  by (auto simp: index_ok_def in_bucket_delete)

section \<open>The registries\<close>

lemma entries_addWaiter: "entries (addWaiter eh i) = entries i"
  by (simp add: addWaiter_def Let_def)

lemma entries_deleteWaiter: "entries (deleteWaiter eh i) = entries i"
  by (simp add: deleteWaiter_def Let_def)

lemma remove_non_holder:
  assumes "no_empty (entries i)" "\<not> in_bucket (entries i) (ent eh) eh"
  shows "remove eh i = i"
proof (cases "fmlookup (entries i) (ent eh)")
  case None
  then show ?thesis by (simp add: remove_def deleteFromMapToSet_def)
next
  case (Some s0)
  with assms have "s0 \<noteq> {||}" "eh |\<notin>| s0"
    by (auto simp: no_empty_def in_bucket_def)
  then have "s0 |-| {|eh|} = s0" "s0 |-| {|eh|} \<noteq> {||}" by auto
  with Some show ?thesis
    by (simp add: remove_def deleteFromMapToSet_def fmupd_same)
qed

lemma Len_remove:
  assumes "no_empty (entries i)"
  shows "Len (entries (remove eh i)) =
     Len (entries i) - (if fmlookup (entries i) (ent eh) = Some {|eh|} then 1 else 0)"
proof (cases "fmlookup (entries i) (ent eh)")
  case None
  then show ?thesis by (simp add: remove_def deleteFromMapToSet_def)
next
  case (Some s0)
  with assms have ne: "s0 \<noteq> {||}" by (auto simp: no_empty_def)
  from Some have dom: "ent eh |\<in>| fmdom (entries i)" by (rule fmdomI)
  show ?thesis
  proof (cases "s0 = {|eh|}")
    case True
    from dom have "0 < fcard (fmdom (entries i))"
      by (metis fcard_0_eq fempty_iff gr0I)
    with True Some dom show ?thesis
      by (simp add: remove_def deleteFromMapToSet_def Len_def fcard_fminus_fsingleton_if)
  next
    case False
    with ne have "s0 |-| {|eh|} \<noteq> {||}" by auto
    moreover from dom have "finsert (ent eh) (fmdom (entries i)) = fmdom (entries i)" by auto
    ultimately show ?thesis using Some False
      by (simp add: remove_def deleteFromMapToSet_def Len_def)
  qed
qed


lemma waiters_addWaiter: "waiters (addWaiter eh i) = finsert eh (waiters i)"
  by (simp add: addWaiter_def Let_def)

lemma waiters_deleteWaiter: "waiters (deleteWaiter eh i) = waiters i |-| {|eh|}"
  by (simp add: deleteWaiter_def Let_def)

lemma registries_ok_addWaiter: "registries_ok i \<Longrightarrow> registries_ok (addWaiter eh i)"
  by (simp add: registries_ok_def addWaiter_def Let_def index_ok_add)

lemma registries_ok_deleteWaiter: "registries_ok i \<Longrightarrow> registries_ok (deleteWaiter eh i)"
  by (simp add: registries_ok_def deleteWaiter_def Let_def index_ok_delete)

lemma registries_ok_remove: "registries_ok (remove eh i) = registries_ok i"
  by (simp add: registries_ok_def remove_def)

lemma registries_ok_consistent:
  assumes "registries_ok i"
  shows "registries_consistent i"
  using assms by (simp add: registries_consistent_def registries_ok_def index_ok_def)

lemma registries_ok_deregistered:
  assumes "registries_ok i" "h |\<notin>| waiters i"
  shows "deregistered i h"
  using assms by (simp add: deregistered_def registries_ok_def index_ok_def)

lemma buckets_ok_addWaiter: "buckets_ok i \<Longrightarrow> buckets_ok (addWaiter eh i)"
  by (simp add: buckets_ok_def addWaiter_def Let_def no_empty_add)

lemma buckets_ok_deleteWaiter: "buckets_ok i \<Longrightarrow> buckets_ok (deleteWaiter eh i)"
  by (simp add: buckets_ok_def deleteWaiter_def Let_def no_empty_delete)

lemma buckets_ok_remove: "buckets_ok i \<Longrightarrow> buckets_ok (remove eh i)"
  by (simp add: buckets_ok_def remove_def no_empty_delete)

lemma fmdom_waitersByPriority:
  assumes "registries_ok i" "buckets_ok i"
  shows "fmdom (waitersByPriority i) = priority |`| waiters i"
proof (rule fset_eqI)
  fix k
  let ?m = "waitersByPriority i"
  from assms(1) have idx: "\<And>k h. in_bucket ?m k h \<longleftrightarrow> h |\<in>| waiters i \<and> priority h = k"
    by (simp add: registries_ok_def index_ok_def)
  show "k |\<in>| fmdom ?m \<longleftrightarrow> k |\<in>| priority |`| waiters i"
  proof
    assume "k |\<in>| fmdom ?m"
    then obtain hs where hs: "fmlookup ?m k = Some hs"
      by (auto simp: fmlookup_dom_iff)
    with assms(2) have "hs \<noteq> {||}"
      by (auto simp: buckets_ok_def no_empty_def)
    then obtain h where "h |\<in>| hs" by auto
    with hs have "in_bucket ?m k h" by (simp add: in_bucket_def)
    with idx show "k |\<in>| priority |`| waiters i" by auto
  next
    assume "k |\<in>| priority |`| waiters i"
    then obtain h where "h |\<in>| waiters i" "priority h = k" by auto
    with idx have "in_bucket ?m k h" by simp
    then show "k |\<in>| fmdom ?m" by (rule in_bucket_dom)
  qed
qed

section \<open>The admission transaction\<close>

lemma First_None_iff: "First m = None \<longleftrightarrow> fmdom m = {||}"
  by (simp add: First_def)

lemma First_Some_iff:
  "First m = Some k \<longleftrightarrow> k |\<in>| fmdom m \<and> (\<forall>k'. k' |\<in>| fmdom m \<longrightarrow> k' \<le> k)"
proof (cases "fmdom m = {||}")
  case True
  then show ?thesis by (simp add: First_def)
next
  case False
  show ?thesis
  proof
    assume "First m = Some k"
    with False have k: "k = fMax (fmdom m)" by (simp add: First_def)
    from False have "fMax (fmdom m) |\<in>| fmdom m" by (rule fMax_in)
    with k show "k |\<in>| fmdom m \<and> (\<forall>k'. k' |\<in>| fmdom m \<longrightarrow> k' \<le> k)"
      by simp
  next
    assume "k |\<in>| fmdom m \<and> (\<forall>k'. k' |\<in>| fmdom m \<longrightarrow> k' \<le> k)"
    then have "fMax (fmdom m) = k" by (intro fMax_eqI) auto
    with False show "First m = Some k" by (simp add: First_def)
  qed
qed

lemma First_less_priority:
  "First m = Some k \<longleftrightarrow>
     k |\<in>| fmdom m \<and> (\<forall>k'. k' |\<in>| fmdom m \<longrightarrow> \<not> less_priority k' k)"
  by (simp add: First_Some_iff less_priority_def not_less)

lemma First_top_waiting:
  assumes "registries_ok i" "buckets_ok i"
  shows "First (waitersByPriority i) = Some p \<longleftrightarrow> top_waiting i p"
  unfolding First_Some_iff fmdom_waitersByPriority [OF assms] top_waiting_def
  by auto

lemma pending_First:
  assumes "registries_ok i" "eh |\<in>| waiters i"
  shows "First (waitersByPriority i) \<noteq> None"
proof -
  from assms have "in_bucket (waitersByPriority i) (priority eh) eh"
    by (simp add: registries_ok_def index_ok_def)
  then have "priority eh |\<in>| fmdom (waitersByPriority i)"
    by (rule in_bucket_dom)
  then show ?thesis
    by (auto simp: First_None_iff)
qed

lemma Wait_tx_new_entry:
  assumes "fmlookup (entries i) e = None"
  shows "Wait_tx i d e p eh =
     (case First (waitersByPriority i) of
        None \<Rightarrow> Panic ''y u no waiting''
      | Some topPrio \<Rightarrow>
          if haveRoom i \<and> p = topPrio then Return True (i\<lparr>entries := fmupd e {|eh|} (entries i)\<rparr>)
          else if d then Return False i else Retry)"
proof -
  from assms have "addToMapToSet (entries i) e eh = fmupd e {|eh|} (entries i)"
    by (simp add: addToMapToSet_def)
  with assms show ?thesis
    by (simp add: Wait_tx_def Let_def split: option.splits)
qed

lemma Wait_tx_held_entry:
  assumes "fmlookup (entries i) e = Some s"
  shows "Wait_tx i d e p eh = Return True (i\<lparr>entries := fmupd e (finsert eh s) (entries i)\<rparr>)"
  using assms by (simp add: Wait_tx_def Let_def)

lemma Wait_tx_admissible:
  assumes "First (waitersByPriority i) \<noteq> None"
  shows "Wait_tx i d e p eh =
     (if admissible i e p
      then Return True (i\<lparr>entries := fmupd e (finsert eh (case fmlookup (entries i) e of
                                                            None \<Rightarrow> {||} | Some s \<Rightarrow> s)) (entries i)\<rparr>)
      else if d then Return False i else Retry)"
proof (cases "fmlookup (entries i) e")
  case None
  with assms show ?thesis
    by (auto simp: Wait_tx_new_entry admissible_def)
next
  case (Some s)
  then show ?thesis
    by (simp add: Wait_tx_held_entry admissible_def)
qed

lemma Wait_tx_Return:
  assumes "Wait_tx i d e p eh = Return b i'"
  shows "waiters i' = waiters i" "waitersByPriority i' = waitersByPriority i"
    "waitersByReason i' = waitersByReason i" "waitersByEntry i' = waitersByEntry i"
    "maxEntries i' = maxEntries i" "noMaxEntries i' = noMaxEntries i"
    "b \<or> d" "no_empty (entries i) \<Longrightarrow> no_empty (entries i')"
  using assms
  by (auto simp: Wait_tx_def Let_def no_empty_def lookup_addToMapToSet
      split: option.splits if_splits)

lemma Wait_tx_entries:
  assumes "Wait_tx i d e p eh = Return b i'"
  shows "in_bucket (entries i') k h \<longleftrightarrow> in_bucket (entries i) k h \<or> b \<and> k = e \<and> h = eh"
  using assms
  by (auto simp: Wait_tx_def Let_def in_bucket_def lookup_addToMapToSet
      split: option.splits if_splits)

lemma pending_no_Panic:
  assumes "registries_ok i" "eh |\<in>| waiters i"
  shows "Wait_tx i d e p eh \<noteq> Panic msg"
  using pending_First [OF assms]
  by (auto simp: Wait_tx_def Let_def split: option.splits)

section \<open>Preservation of the invariants\<close>

lemma call_ok_cong:
  "waiters i' = waiters i \<Longrightarrow> call_ok i' a c = call_ok i a c"
  by (simp add: call_ok_def split: pc.splits)

lemma call_ok_addWaiter_other:
  "call_ok i a c \<Longrightarrow> ptr eh \<noteq> a \<Longrightarrow> call_ok (addWaiter eh i) a c"
  by (auto simp: call_ok_def waiters_addWaiter split: pc.splits)

lemma call_ok_deleteWaiter_other:
  "call_ok i a c \<Longrightarrow> ptr eh \<noteq> a \<Longrightarrow> call_ok (deleteWaiter eh i) a c"
  by (auto simp: call_ok_def waiters_deleteWaiter split: pc.splits)

lemma call_ok_frame:
  "call_ok (SetMaxEntries n i) a c = call_ok i a c"
  "call_ok (SetNoMaxEntries i) a c = call_ok i a c"
  "call_ok (remove eh i) a c = call_ok i a c"
  by (rule call_ok_cong, simp add: SetMaxEntries_def SetNoMaxEntries_def remove_def)+

lemma system_okD:
  assumes "system_ok s"
  shows "registries_ok (inst s)" "buckets_ok (inst s)"
    "calls s a = Some c \<Longrightarrow> call_ok (inst s) a c"
  using assms by (simp_all add: system_ok_def)

lemma step_Call_Wait_ok:
  assumes ok: "system_ok s" and st: "step (Call_Wait a d e r p now) s = Some s'"
  shows "system_ok s'"
proof -
  define eh where "eh = \<lparr>ptr = a, reason = r, ent = e, priority = p, created = now\<rparr>"
  from st have fresh: "calls s a = None"
    by (simp split: option.splits)
  with st have s': "inst s' = addWaiter eh (inst s)"
    "calls s' = (calls s)(a \<mapsto> \<lparr>handle = eh, ctxDone = d, at = Pending\<rparr>)"
    by (auto simp: eh_def Let_def)
  have "call_ok (inst s') a' c'" if "calls s' a' = Some c'" for a' c'
  proof (cases "a' = a")
    case True
    with that s' show ?thesis
      by (auto simp: call_ok_def waiters_addWaiter eh_def)
  next
    case False
    with that s' have "calls s a' = Some c'" by simp
    then have "call_ok (inst s) a' c'" by (rule system_okD(3) [OF ok])
    moreover from False have "ptr eh \<noteq> a'" by (simp add: eh_def)
    ultimately show ?thesis
      unfolding s' by (rule call_ok_addWaiter_other)
  qed
  with system_okD(1,2) [OF ok] show ?thesis
    by (simp add: system_ok_def s' registries_ok_addWaiter buckets_ok_addWaiter)
qed

lemma step_Ctx_Done_ok:
  assumes ok: "system_ok s" and st: "step (Ctx_Done a) s = Some s'"
  shows "system_ok s'"
proof -
  from st obtain c where c: "calls s a = Some c"
    and s': "s' = s\<lparr>calls := (calls s)(a \<mapsto> c\<lparr>ctxDone := True\<rparr>)\<rparr>"
    by (auto split: option.splits)
  have "call_ok (inst s') a' c'" if "calls s' a' = Some c'" for a' c'
  proof (cases "a' = a")
    case True
    with that s' have "c' = c\<lparr>ctxDone := True\<rparr>" by simp
    with system_okD(3) [OF ok c] True show ?thesis
      by (auto simp: call_ok_def s' split: pc.splits)
  next
    case False
    with that s' have "calls s a' = Some c'" by simp
    then have "call_ok (inst s) a' c'" by (rule system_okD(3) [OF ok])
    then show ?thesis by (simp add: s')
  qed
  with system_okD(1,2) [OF ok] show ?thesis
    by (simp add: system_ok_def s')
qed

lemma step_Attempt_ok:
  assumes ok: "system_ok s" and st: "step (Attempt a) s = Some s'"
  shows "system_ok s'"
proof -
  from st obtain c where c: "calls s a = Some c" and pend: "at c = Pending"
    by (auto split: option.splits pc.splits)
  let ?h = "handle c"
  from system_okD(3) [OF ok c] pend have h: "?h |\<in>| waiters (inst s)" "ptr ?h = a"
    by (simp_all add: call_ok_def)
  show ?thesis
  proof (cases "Wait_tx (inst s) (ctxDone c) (ent ?h) (priority ?h) ?h")
    case (Return b i')
    with st c pend have s': "inst s' = i'"
      "calls s' = (calls s)(a \<mapsto> c\<lparr>at := Decided b\<rparr>)"
      by auto
    note same = Wait_tx_Return [OF Return]
    have reg: "registries_ok i'"
      using system_okD(1) [OF ok] by (simp add: registries_ok_def same)
    have buck: "buckets_ok i'"
      using system_okD(2) [OF ok] by (simp add: buckets_ok_def same)
    have "call_ok (inst s') a' c'" if "calls s' a' = Some c'" for a' c'
    proof (cases "a' = a")
      case True
      with that s' have "c' = c\<lparr>at := Decided b\<rparr>" by simp
      with same(7) h True show ?thesis
        by (auto simp: call_ok_def)
    next
      case False
      with that s' have "calls s a' = Some c'" by simp
      then have "call_ok (inst s) a' c'" by (rule system_okD(3) [OF ok])
      then show ?thesis by (simp add: s' call_ok_cong [OF same(1)])
    qed
    with reg buck show ?thesis
      by (simp add: system_ok_def s')
  next
    case Retry
    with st c pend have "s' = s" by simp
    with ok show ?thesis by simp
  next
    case (Panic msg)
    with pending_no_Panic [OF system_okD(1) [OF ok] h(1)] show ?thesis
      by blast
  qed
qed

lemma step_Deregister_ok:
  assumes ok: "system_ok s" and st: "step (Deregister a) s = Some s'"
  shows "system_ok s'"
proof -
  from st obtain c b where c: "calls s a = Some c" and dec: "at c = Decided b"
    by (auto split: option.splits pc.splits)
  let ?h = "handle c"
  from st c dec have s': "inst s' = deleteWaiter ?h (inst s)"
    "calls s' = (calls s)(a \<mapsto> c\<lparr>at := Returned (Wait_return b ?h)\<rparr>)"
    by auto
  from system_okD(3) [OF ok c] dec have h: "ptr ?h = a" "b \<or> ctxDone c"
    by (simp_all add: call_ok_def)
  have "call_ok (inst s') a' c'" if "calls s' a' = Some c'" for a' c'
  proof (cases "a' = a")
    case True
    with that s' have "c' = c\<lparr>at := Returned (Wait_return b ?h)\<rparr>" by simp
    with h True show ?thesis
      by (auto simp: call_ok_def s' waiters_deleteWaiter Wait_return_def)
  next
    case False
    with that s' have "calls s a' = Some c'" by simp
    then have "call_ok (inst s) a' c'" by (rule system_okD(3) [OF ok])
    moreover from False h have "ptr ?h \<noteq> a'" by simp
    ultimately show ?thesis
      unfolding s' by (rule call_ok_deleteWaiter_other)
  qed
  with system_okD(1,2) [OF ok] show ?thesis
    by (simp add: system_ok_def s' registries_ok_deleteWaiter buckets_ok_deleteWaiter)
qed

lemma step_config_ok:
  assumes ok: "system_ok s"
  shows "system_ok (s\<lparr>inst := SetMaxEntries n (inst s)\<rparr>)"
    "system_ok (s\<lparr>inst := SetNoMaxEntries (inst s)\<rparr>)"
    "system_ok (s\<lparr>inst := remove eh (inst s)\<rparr>)"
  using ok
  by (simp_all add: system_ok_def registries_ok_remove buckets_ok_remove call_ok_frame)
    (simp_all add: registries_ok_def buckets_ok_def SetMaxEntries_def SetNoMaxEntries_def)

lemma system_ok_step:
  assumes ok: "system_ok s" and st: "step x s = Some s'"
  shows "system_ok s'"
proof (cases x)
  case (Call_Wait a d e r p now)
  with ok st show ?thesis by (simp only: step_Call_Wait_ok)
next
  case (Ctx_Done a)
  with ok st show ?thesis by (simp only: step_Ctx_Done_ok)
next
  case (Attempt a)
  with ok st show ?thesis by (simp only: step_Attempt_ok)
next
  case (Deregister a)
  with ok st show ?thesis by (simp only: step_Deregister_ok)
next
  case (Do_SetMaxEntries n)
  with st step_config_ok(1) [OF ok] show ?thesis by auto
next
  case Do_SetNoMaxEntries
  with st step_config_ok(2) [OF ok] show ?thesis by auto
next
  case (Do_remove eh)
  with st step_config_ok(3) [OF ok] show ?thesis by auto
qed

lemma system_ok_run: "system_ok s \<Longrightarrow> run xs s = Some s' \<Longrightarrow> system_ok s'"
proof (induction xs arbitrary: s)
  case Nil
  then show ?case by simp
next
  case (Cons x xs)
  then show ?case
    by (auto split: option.splits dest: system_ok_step)
qed

lemma system_ok_start: "system_ok start"
  by (simp add: system_ok_def start_def NewInstance_def registries_ok_def buckets_ok_def
      index_ok_def no_empty_def in_bucket_def)

lemma reachable_ok: "run xs start = Some s \<Longrightarrow> system_ok s"
  using system_ok_start by (rule system_ok_run)

lemma pending_registered:
  assumes "system_ok s" "calls s a = Some c" "at c = Pending"
  shows "handle c |\<in>| waiters (inst s)"
  using system_okD(3) [OF assms(1,2)] assms(3) by (simp add: call_ok_def)

section \<open>The holders of the entries table\<close>

lemma holders_okD:
  assumes "holders_ok s" "in_bucket (entries (inst s)) k h"
  obtains c where "calls s (ptr h) = Some c" "handle c = h"
    "at c = Decided True \<or> at c = Returned (Some h)"
  using assms unfolding holders_ok_def by blast

lemma holders_ok_step:
  assumes ok: "system_ok s" and hs: "holders_ok s" and st: "step x s = Some s'"
  shows "holders_ok s'"
  unfolding holders_ok_def
proof (intro allI impI)
  fix k h
  assume b': "in_bucket (entries (inst s')) k h"
  show "\<exists>c. calls s' (ptr h) = Some c \<and> handle c = h \<and>
           (at c = Decided True \<or> at c = Returned (Some h))"
  proof (cases x)
    case (Call_Wait a d e r p now)
    with st have fresh: "calls s a = None" by (simp split: option.splits)
    with st Call_Wait have s': "entries (inst s') = entries (inst s)"
      "\<And>a'. a' \<noteq> a \<Longrightarrow> calls s' a' = calls s a'"
      by (auto simp: Let_def addWaiter_def)
    from b' s' have "in_bucket (entries (inst s)) k h" by simp
    from holders_okD [OF hs this] obtain c where c: "calls s (ptr h) = Some c" "handle c = h"
      "at c = Decided True \<or> at c = Returned (Some h)" .
    with fresh have "ptr h \<noteq> a" by auto
    with c s' show ?thesis by simp
  next
    case (Ctx_Done a)
    with st obtain c0 where c0: "calls s a = Some c0"
      and s': "s' = s\<lparr>calls := (calls s)(a \<mapsto> c0\<lparr>ctxDone := True\<rparr>)\<rparr>"
      by (auto split: option.splits)
    from b' s' have "in_bucket (entries (inst s)) k h" by simp
    from holders_okD [OF hs this] obtain c where c: "calls s (ptr h) = Some c" "handle c = h"
      "at c = Decided True \<or> at c = Returned (Some h)" .
    with c0 s' show ?thesis by (cases "ptr h = a") auto
  next
    case (Attempt a)
    with st obtain c0 where c0: "calls s a = Some c0" and pend: "at c0 = Pending"
      by (auto split: option.splits pc.splits)
    let ?h = "handle c0"
    from system_okD(3) [OF ok c0] have ptr: "ptr ?h = a" by (simp add: call_ok_def)
    show ?thesis
    proof (cases "Wait_tx (inst s) (ctxDone c0) (ent ?h) (priority ?h) ?h")
      case (Return b i')
      with st Attempt c0 pend have s': "inst s' = i'"
        "calls s' = (calls s)(a \<mapsto> c0\<lparr>at := Decided b\<rparr>)"
        by auto
      from b' have "in_bucket (entries (inst s)) k h \<or> b \<and> k = ent ?h \<and> h = ?h"
        by (simp add: s' Wait_tx_entries [OF Return])
      then show ?thesis
      proof
        assume "in_bucket (entries (inst s)) k h"
        from holders_okD [OF hs this] obtain c where c: "calls s (ptr h) = Some c" "handle c = h"
          "at c = Decided True \<or> at c = Returned (Some h)" .
        with c0 pend have "ptr h \<noteq> a" by auto
        with c s' show ?thesis by simp
      next
        assume "b \<and> k = ent ?h \<and> h = ?h"
        with ptr s' show ?thesis by simp
      qed
    next
      case Retry
      with st Attempt c0 pend have "s' = s" by simp
      with b' hs show ?thesis by (auto elim: holders_okD)
    next
      case (Panic msg)
      with st Attempt c0 pend
      have s': "inst s' = inst s" "calls s' = (calls s)(a \<mapsto> c0\<lparr>at := Panicked\<rparr>)"
        by auto
      from b' s' have "in_bucket (entries (inst s)) k h" by simp
      from holders_okD [OF hs this] obtain c where c: "calls s (ptr h) = Some c" "handle c = h"
        "at c = Decided True \<or> at c = Returned (Some h)" .
      with c0 pend have "ptr h \<noteq> a" by auto
      with c s' show ?thesis by simp
    qed
  next
    case (Deregister a)
    with st obtain c0 b where c0: "calls s a = Some c0" and dec: "at c0 = Decided b"
      by (auto split: option.splits pc.splits)
    with st Deregister have s': "entries (inst s') = entries (inst s)"
      "calls s' = (calls s)(a \<mapsto> c0\<lparr>at := Returned (Wait_return b (handle c0))\<rparr>)"
      by (auto simp: deleteWaiter_def Let_def)
    from b' s' have "in_bucket (entries (inst s)) k h" by simp
    from holders_okD [OF hs this] obtain c where c: "calls s (ptr h) = Some c" "handle c = h"
      "at c = Decided True \<or> at c = Returned (Some h)" .
    with c0 dec s' show ?thesis
      by (cases "ptr h = a") (auto simp: Wait_return_def)
  next
    case (Do_SetMaxEntries n)
    with st b' have "in_bucket (entries (inst s)) k h" "calls s' = calls s"
      by (auto simp: SetMaxEntries_def)
    with hs show ?thesis by (auto elim: holders_okD)
  next
    case Do_SetNoMaxEntries
    with st b' have "in_bucket (entries (inst s)) k h" "calls s' = calls s"
      by (auto simp: SetNoMaxEntries_def)
    with hs show ?thesis by (auto elim: holders_okD)
  next
    case (Do_remove eh)
    with st b' have "in_bucket (entries (inst s)) k h" "calls s' = calls s"
      by (auto simp: remove_def in_bucket_delete)
    with hs show ?thesis by (auto elim: holders_okD)
  qed
qed

lemma holders_ok_run:
  "system_ok s \<Longrightarrow> holders_ok s \<Longrightarrow> run xs s = Some s' \<Longrightarrow> holders_ok s'"
proof (induction xs arbitrary: s)
  case Nil
  then show ?case by simp
next
  case (Cons x xs)
  from Cons.prems(3) obtain s1 where s1: "step x s = Some s1" "run xs s1 = Some s'"
    by (auto split: option.splits)
  from Cons.prems(1) s1(1) have "system_ok s1" by (rule system_ok_step)
  moreover from Cons.prems(1,2) s1(1) have "holders_ok s1" by (rule holders_ok_step)
  ultimately show ?case using s1(2) by (rule Cons.IH)
qed

lemma holders_ok_start: "holders_ok start"
  by (simp add: holders_ok_def start_def NewInstance_def in_bucket_def)

lemma reachable_holders_ok: "run xs start = Some s \<Longrightarrow> holders_ok s"
  using system_ok_start holders_ok_start by (rule holders_ok_run)

lemma not_admitted:
  assumes "system_ok s" "holders_ok s" "calls s a = Some c"
    "at c \<noteq> Decided True" "at c \<noteq> Returned (Some (handle c))"
  shows "\<not> in_bucket (entries (inst s)) k (handle c)"
proof
  assume "in_bucket (entries (inst s)) k (handle c)"
  from holders_okD [OF assms(2) this] obtain c' where c': "calls s (ptr (handle c)) = Some c'"
    "handle c' = handle c" "at c' = Decided True \<or> at c' = Returned (Some (handle c))" .
  from system_okD(3) [OF assms(1,3)] have "ptr (handle c) = a" by (simp add: call_ok_def)
  with c' assms(3) have "c' = c" by simp
  with c' assms(4,5) show False by auto
qed

section \<open>Released handles\<close>

lemma step_entries:
  assumes "step x s = Some s'" and "in_bucket (entries (inst s')) k h"
  shows "in_bucket (entries (inst s)) k h \<or>
         (\<exists>a c. x = Attempt a \<and> calls s a = Some c \<and> at c = Pending \<and> h = handle c \<and> k = ent h)"
proof (cases x)
  case (Call_Wait a d e r p now)
  with assms show ?thesis
    by (auto simp: Let_def entries_addWaiter split: option.splits)
next
  case (Ctx_Done a)
  with assms show ?thesis by (auto split: option.splits)
next
  case (Attempt a)
  with assms(1) obtain c where c: "calls s a = Some c" "at c = Pending"
    by (auto split: option.splits pc.splits)
  show ?thesis
  proof (cases "Wait_tx (inst s) (ctxDone c) (ent (handle c)) (priority (handle c)) (handle c)")
    case (Return b i')
    with assms(1) Attempt c have "inst s' = i'" by auto
    with assms(2) Wait_tx_entries [OF Return, of k h] Attempt c show ?thesis by auto
  next
    case Retry
    with assms Attempt c show ?thesis by simp
  next
    case (Panic msg)
    with assms Attempt c show ?thesis by auto
  qed
next
  case (Deregister a)
  with assms show ?thesis
    by (auto simp: entries_deleteWaiter split: option.splits pc.splits)
next
  case (Do_SetMaxEntries n)
  with assms show ?thesis by (auto simp: SetMaxEntries_def)
next
  case Do_SetNoMaxEntries
  with assms show ?thesis by (auto simp: SetNoMaxEntries_def)
next
  case (Do_remove eh)
  with assms show ?thesis by (auto simp: in_bucket_remove)
qed

lemma holders_keyed_step:
  assumes "holders_keyed (inst s)" "step x s = Some s'"
  shows "holders_keyed (inst s')"
  unfolding holders_keyed_def
proof (intro allI impI)
  fix k h
  assume "in_bucket (entries (inst s')) k h"
  from step_entries [OF assms(2) this] assms(1) show "ent h = k"
    by (auto simp: holders_keyed_def)
qed

lemma holders_keyed_run: "holders_keyed (inst s) \<Longrightarrow> run xs s = Some s' \<Longrightarrow> holders_keyed (inst s')"
proof (induction xs arbitrary: s)
  case Nil
  then show ?case by simp
next
  case (Cons x xs)
  then show ?case
    by (auto split: option.splits dest: holders_keyed_step)
qed

lemma reachable_holders_keyed: "run xs start = Some s \<Longrightarrow> holders_keyed (inst s)"
proof (rule holders_keyed_run)
  show "holders_keyed (inst start)"
    by (simp add: holders_keyed_def start_def NewInstance_def in_bucket_def)
qed

lemma step_returned:
  assumes "step x s = Some s'" "calls s a = Some c" "at c = Returned r"
  shows "\<exists>c'. calls s' a = Some c' \<and> handle c' = handle c \<and> at c' = Returned r"
proof (cases x)
  case (Call_Wait a' d e r' p now)
  with assms show ?thesis
    by (cases "a' = a") (auto simp: Let_def split: option.splits)
next
  case (Ctx_Done a')
  with assms show ?thesis
    by (cases "a' = a") (auto split: option.splits)
next
  case (Attempt a')
  with assms show ?thesis
    by (cases "a' = a") (auto split: option.splits pc.splits tx_result.splits)
next
  case (Deregister a')
  with assms show ?thesis
    by (cases "a' = a") (auto split: option.splits pc.splits)
next
  case (Do_SetMaxEntries n)
  with assms show ?thesis by auto
next
  case Do_SetNoMaxEntries
  with assms show ?thesis by auto
next
  case (Do_remove eh)
  with assms show ?thesis by auto
qed

lemma released_step:
  assumes ok: "system_ok s" and rel: "released s a h" and st: "step x s = Some s'"
  shows "released s' a h"
proof -
  from rel obtain c r where c: "calls s a = Some c" "handle c = h" "at c = Returned r"
    and out: "\<And>k. \<not> in_bucket (entries (inst s)) k h"
    by (auto simp: released_def)
  from system_okD(3) [OF ok c(1)] c(2) have ptr: "ptr h = a" by (simp add: call_ok_def)
  from step_returned [OF st c(1,3)] c(2)
  have call: "\<exists>c' r. calls s' a = Some c' \<and> handle c' = h \<and> at c' = Returned r"
    by auto
  have "\<not> in_bucket (entries (inst s')) k h" for k
  proof
    assume "in_bucket (entries (inst s')) k h"
    from step_entries [OF st this] out obtain a' c'
      where c': "calls s a' = Some c'" "at c' = Pending" "h = handle c'"
      by auto
    from system_okD(3) [OF ok c'(1)] c'(3) ptr have "a' = a" by (simp add: call_ok_def)
    with c c' show False by simp
  qed
  with call show ?thesis by (simp add: released_def)
qed

lemma released_run:
  "system_ok s \<Longrightarrow> released s a h \<Longrightarrow> run xs s = Some s' \<Longrightarrow> released s' a h"
proof (induction xs arbitrary: s)
  case Nil
  then show ?case by simp
next
  case (Cons x xs)
  from Cons.prems(3) obtain s1 where s1: "step x s = Some s1" "run xs s1 = Some s'"
    by (auto split: option.splits)
  from Cons.prems(1) s1(1) have "system_ok s1" by (rule system_ok_step)
  moreover from Cons.prems(1,2) s1(1) have "released s1 a h" by (rule released_step)
  ultimately show ?case using s1(2) by (rule Cons.IH)
qed

section \<open>The example execution\<close>

lemmas example_defs = entry1_def entry2_def entry3_def handle1_def handle2_def handle3_def
  handle4_def contended_inst_def contended_state_def contended_def opened_def opened_state_def
  cancelled_state_def shared_def shared_state_def later_def later_state_def Done_fires_def

lemmas eval_defs = start_def NewInstance_def Wait_tx_def addWaiter_def deleteWaiter_def
  addToMapToSet_def deleteFromMapToSet_def SetMaxEntries_def SetNoMaxEntries_def remove_def
  First_def haveRoom_def Len_def Wait_return_def Let_def fcard_fempty fcard_finsert_if

lemma run_contended: "run contended start = Some contended_state"
  apply (simp add: example_defs eval_defs)
  apply (intro conjI fmap_ext; simp)
  done

lemma run_append:
  "run (xs @ ys) s = (case run xs s of None \<Rightarrow> None | Some s' \<Rightarrow> run ys s')"
  by (induction xs arbitrary: s) (simp_all split: option.splits)

lemma run_opened: "run opened start = Some opened_state"
  by (simp add: opened_def run_append run_contended)
    (simp add: opened_state_def contended_state_def SetNoMaxEntries_def)

lemma run_shared: "run shared start = Some shared_state"
  apply (simp add: example_defs eval_defs)
  apply (intro conjI fmap_ext; simp)
  done

lemma run_later: "run (Done_fires handle1 # later) shared_state = Some later_state"
  apply (simp add: example_defs eval_defs)
  apply (intro conjI fmap_ext; auto)
  done

section \<open>Admission of a new entry\<close>

text \<open>
  C1. In a reachable state, when the requested entry has no holder, the admission
  transaction admits the handle exactly when there is room and \<open>p\<close> is the highest
  priority among the pending waiters; the handle then becomes the only holder of the new
  entry. While some pending waiter has a strictly higher priority, the caller is not
  admitted, whatever the capacity.
\<close>

theorem Wait_admits_new_entry_only_top_priority:
  assumes "run xs start = Some s" and "fmlookup (entries (inst s)) e = None"
  shows "((\<exists>i'. Wait_tx (inst s) d e p eh = Return True i') \<longleftrightarrow>
            haveRoom (inst s) \<and> top_waiting (inst s) p) \<and>
         (\<forall>i'. Wait_tx (inst s) d e p eh = Return True i' \<longrightarrow>
            i' = (inst s)\<lparr>entries := fmupd e {|eh|} (entries (inst s))\<rparr>) \<and>
         (\<forall>h. h |\<in>| waiters (inst s) \<and> p < priority h \<longrightarrow>
            (\<forall>i'. Wait_tx (inst s) d e p eh \<noteq> Return True i'))"
proof -
  from assms(1) have ok: "system_ok s" by (rule reachable_ok)
  note top = First_top_waiting [OF system_okD(1,2) [OF ok]]
  have admit: "(\<exists>i'. Wait_tx (inst s) d e p eh = Return True i') \<longleftrightarrow>
      haveRoom (inst s) \<and> top_waiting (inst s) p"
    unfolding Wait_tx_new_entry [OF assms(2)] top [symmetric]
    by (auto split: option.splits)
  have result: "\<forall>i'. Wait_tx (inst s) d e p eh = Return True i' \<longrightarrow>
      i' = (inst s)\<lparr>entries := fmupd e {|eh|} (entries (inst s))\<rparr>"
    unfolding Wait_tx_new_entry [OF assms(2)]
    by (auto split: option.splits if_splits)
  have "\<not> top_waiting (inst s) p" if "h |\<in>| waiters (inst s)" "p < priority h" for h
  proof
    assume "top_waiting (inst s) p"
    then have "fBall (waiters (inst s)) (\<lambda>h. priority h \<le> p)"
      by (simp add: top_waiting_def)
    from fbspec [OF this that(1)] that(2) show False by simp
  qed
  with admit have "\<forall>h. h |\<in>| waiters (inst s) \<and> p < priority h \<longrightarrow>
      (\<forall>i'. Wait_tx (inst s) d e p eh \<noteq> Return True i')"
    by blast
  with admit result show ?thesis by blast
qed

theorem Wait_admits_new_entry_only_top_priority_witness:
  "run opened start = Some opened_state \<and>
   fmlookup (entries (inst opened_state)) entry2 = None \<and>
   (\<exists>i'. Wait_tx (inst opened_state) False entry2 7 handle3 = Return True i') \<and>
   haveRoom (inst opened_state) \<and> top_waiting (inst opened_state) 7 \<and>
   handle3 |\<in>| waiters (inst opened_state) \<and> 0 < priority handle3 \<and>
   (\<forall>i'. Wait_tx (inst opened_state) True entry3 0 handle4 \<noteq> Return True i')"
proof -
  have no2: "fmlookup (entries (inst opened_state)) entry2 = None"
    and no3: "fmlookup (entries (inst opened_state)) entry3 = None"
    by (simp_all add: example_defs)
  have admitted: "\<exists>i'. Wait_tx (inst opened_state) False entry2 7 handle3 = Return True i'"
    by (simp add: example_defs eval_defs)
  have higher: "handle3 |\<in>| waiters (inst opened_state) \<and> 0 < priority handle3"
    by (simp add: example_defs)
  from Wait_admits_new_entry_only_top_priority [OF run_opened no2, of False 7 handle3] admitted
  have "haveRoom (inst opened_state) \<and> top_waiting (inst opened_state) 7"
    by blast
  moreover
  from Wait_admits_new_entry_only_top_priority [OF run_opened no3, of True 0 handle4] higher
  have "\<forall>i'. Wait_tx (inst opened_state) True entry3 0 handle4 \<noteq> Return True i'"
    by blast
  ultimately show ?thesis
    using run_opened no2 admitted higher by blast
qed

section \<open>The outcome of a call\<close>

text \<open>
  C2, as amended. A call of \<open>Wait\<close> returns nil only if its context is done, and not
  whenever it is: the admission transaction reads \<open>ctxDone\<close> after the admission test, so
  while the call is pending it commits \<open>true\<close> and makes the handle a holder when
  admission is possible, whether or not the context is done; it commits \<open>false\<close>, without
  changing the instance, exactly when admission is not possible and the context is done;
  and otherwise it waits. The call then returns the handle it created when the
  transaction committed \<open>true\<close>, and nil when it committed \<open>false\<close>. A call that returned
  nil had its context done and its handle never held an entry. There is no other
  outcome: no call of a reachable state has panicked.
\<close>

theorem Wait_returns_nil_only_if_cancelled:
  assumes "run xs start = Some s" and "calls s a = Some c"
  shows "at c \<noteq> Panicked \<and>
     (at c = Pending \<longrightarrow>
        (\<exists>s'. step (Attempt a) s = Some s' \<and>
           calls s' a =
             Some (c\<lparr>at := if admissible (inst s) (ent (handle c)) (priority (handle c))
                           then Decided True
                           else if ctxDone c then Decided False else Pending\<rparr>) \<and>
           (if admissible (inst s) (ent (handle c)) (priority (handle c))
            then in_bucket (entries (inst s')) (ent (handle c)) (handle c)
            else inst s' = inst s))) \<and>
     (\<forall>success. at c = Decided success \<longrightarrow>
        (success \<or> ctxDone c) \<and>
        (\<exists>s'. step (Deregister a) s = Some s' \<and>
           calls s' a =
             Some (c\<lparr>at := Returned (if success then Some (handle c) else None)\<rparr>))) \<and>
     (\<forall>r. at c = Returned r \<longrightarrow>
        r = None \<and> ctxDone c \<and> (\<forall>k. \<not> in_bucket (entries (inst s)) k (handle c)) \<or>
        r = Some (handle c))"
proof -
  from assms(1) have ok: "system_ok s" by (rule reachable_ok)
  from assms(1) have hs: "holders_ok s" by (rule reachable_holders_ok)
  note c_ok = system_okD(3) [OF ok assms(2)]
  let ?adm = "admissible (inst s) (ent (handle c)) (priority (handle c))"
  have no_panic: "at c \<noteq> Panicked"
    using c_ok by (auto simp: call_ok_def)
  have attempt: "\<exists>s'. step (Attempt a) s = Some s' \<and>
           calls s' a =
             Some (c\<lparr>at := if ?adm then Decided True
                           else if ctxDone c then Decided False else Pending\<rparr>) \<and>
           (if ?adm then in_bucket (entries (inst s')) (ent (handle c)) (handle c)
            else inst s' = inst s)"
    if pend: "at c = Pending"
  proof -
    from pending_registered [OF ok assms(2) pend] system_okD(1) [OF ok]
    have "First (waitersByPriority (inst s)) \<noteq> None"
      by (simp add: pending_First)
    note tx = Wait_tx_admissible [OF this]
    from pend have same: "c\<lparr>at := Pending\<rparr> = c" by simp
    from assms(2) pend show ?thesis
      by (simp add: tx in_bucket_def same)
  qed
  have decided: "(success \<or> ctxDone c) \<and>
        (\<exists>s'. step (Deregister a) s = Some s' \<and>
           calls s' a =
             Some (c\<lparr>at := Returned (if success then Some (handle c) else None)\<rparr>))"
    if "at c = Decided success" for success
    using that c_ok assms(2) by (simp add: call_ok_def Wait_return_def)
  have returned: "r = None \<and> ctxDone c \<and> (\<forall>k. \<not> in_bucket (entries (inst s)) k (handle c)) \<or>
        r = Some (handle c)" if r: "at c = Returned r" for r
  proof (cases r)
    case None
    with r have "\<not> in_bucket (entries (inst s)) k (handle c)" for k
      by (intro not_admitted [OF ok hs assms(2)]) simp_all
    with r None c_ok show ?thesis by (simp add: call_ok_def)
  next
    case (Some h)
    with r c_ok show ?thesis by (simp add: call_ok_def)
  qed
  from no_panic attempt decided returned show ?thesis by blast
qed

theorem Wait_returns_nil_only_if_cancelled_witness:
  "run contended start = Some contended_state \<and>
   calls contended_state 4 = Some \<lparr>handle = handle4, ctxDone = True, at = Pending\<rparr> \<and>
   \<not> admissible (inst contended_state) entry3 0 \<and>
   (\<exists>s'. step (Attempt 4) contended_state = Some s' \<and>
      calls s' 4 = Some \<lparr>handle = handle4, ctxDone = True, at = Decided False\<rparr> \<and>
      inst s' = inst contended_state \<and>
      (\<exists>s''. step (Deregister 4) s' = Some s'' \<and>
         calls s'' 4 = Some \<lparr>handle = handle4, ctxDone = True, at = Returned None\<rparr>))"
proof -
  let ?c = "\<lparr>handle = handle4, ctxDone = True, at = Pending\<rparr>"
  let ?c' = "\<lparr>handle = handle4, ctxDone = True, at = Decided False\<rparr>"
  have c4: "calls contended_state 4 = Some ?c"
    by (simp add: example_defs)
  have blocked: "\<not> admissible (inst contended_state) entry3 0"
    by (simp add: example_defs eval_defs admissible_def)
  from Wait_returns_nil_only_if_cancelled [OF run_contended c4] blocked
  obtain s' where s': "step (Attempt 4) contended_state = Some s'" "calls s' 4 = Some ?c'"
    "inst s' = inst contended_state"
    by (auto simp: handle4_def)
  from run_contended s'(1) have "run (contended @ [Attempt 4]) start = Some s'"
    by (simp add: run_append)
  from Wait_returns_nil_only_if_cancelled [OF this s'(2)]
  have "\<forall>success. at ?c' = Decided success \<longrightarrow>
      (\<exists>s''. step (Deregister 4) s' = Some s'' \<and>
         calls s'' 4 = Some (?c'\<lparr>at := Returned (if success then Some (handle ?c') else None)\<rparr>))"
    by blast
  then have "\<exists>s''. step (Deregister 4) s' = Some s'' \<and>
      calls s'' 4 = Some \<lparr>handle = handle4, ctxDone = True, at = Returned None\<rparr>"
    by (auto simp del: step.simps)
  with run_contended c4 blocked s' show ?thesis by blast
qed

text \<open>
  C2 as stated fails: a context that is done before the call begins does not make \<open>Wait\<close>
  return nil. With the default limit and no other caller, the call below, whose context
  is done from the start, is admitted by its first attempt and returns its handle.
\<close>

theorem Wait_returns_handle_when_cancelled_counterexample:
  "run [Call_Wait 1 True entry1 '''' 0 0, Attempt 1, Deregister 1] start = Some cancelled_state \<and>
   calls cancelled_state 1 =
     Some \<lparr>handle = handle1, ctxDone = True, at = Returned (Some handle1)\<rparr>"
  apply (simp add: example_defs eval_defs)
  apply (intro conjI fmap_ext; simp)
  done

section \<open>Deregistration\<close>

text \<open>
  C3. Whatever the admission transaction returned, the \<open>deleteWaiter\<close> transaction that
  \<open>Wait\<close> runs before returning leaves the handle out of the flat set and out of every
  bucket of the three keyed registries, and it stays out in every state reached after the
  call has returned.
\<close>

theorem Wait_deregisters_handle:
  assumes "run xs start = Some s" and "calls s a = Some c"
  shows "(\<forall>success. at c = Decided success \<longrightarrow>
            (\<exists>s'. step (Deregister a) s = Some s' \<and>
               calls s' a = Some (c\<lparr>at := Returned (Wait_return success (handle c))\<rparr>) \<and>
               deregistered (inst s') (handle c))) \<and>
         (\<forall>r. at c = Returned r \<longrightarrow> deregistered (inst s) (handle c))"
proof -
  from assms(1) have ok: "system_ok s" by (rule reachable_ok)
  note reg = system_okD(1) [OF ok]
  have gone: "deregistered (deleteWaiter (handle c) (inst s)) (handle c)"
    by (rule registries_ok_deregistered)
      (simp_all add: registries_ok_deleteWaiter reg waiters_deleteWaiter)
  have "\<exists>s'. step (Deregister a) s = Some s' \<and>
      calls s' a = Some (c\<lparr>at := Returned (Wait_return success (handle c))\<rparr>) \<and>
      deregistered (inst s') (handle c)" if "at c = Decided success" for success
    using that assms(2) gone by simp
  moreover have "deregistered (inst s) (handle c)" if "at c = Returned r" for r
    using system_okD(3) [OF ok assms(2)] that
    by (intro registries_ok_deregistered reg) (simp add: call_ok_def)
  ultimately show ?thesis by blast
qed

theorem Wait_deregisters_handle_witness:
  "run contended start = Some contended_state \<and>
   calls contended_state 1 = Some \<lparr>handle = handle1, ctxDone = False, at = Returned (Some handle1)\<rparr> \<and>
   deregistered (inst contended_state) handle1"
proof -
  have c1: "calls contended_state 1 =
      Some \<lparr>handle = handle1, ctxDone = False, at = Returned (Some handle1)\<rparr>"
    by (simp add: example_defs)
  from Wait_deregisters_handle [OF run_contended c1] run_contended c1
  show ?thesis by simp
qed

section \<open>Sharing a held entry\<close>

text \<open>
  C4. When the requested entry already has holders, the admission transaction adds the
  handle to that holder set and commits with \<open>true\<close> at once: the result depends neither on
  the limit nor on the flag nor on the registries of the instance. A pending call for a
  held entry is therefore decided, with success, by its first attempt.
\<close>

theorem Wait_shares_held_entry:
  assumes "fmlookup (entries i) e = Some s"
  shows "Wait_tx i d e p eh = Return True (i\<lparr>entries := fmupd e (finsert eh s) (entries i)\<rparr>) \<and>
         (inst sy = i \<and> calls sy a = Some c \<and> at c = Pending \<and> ent (handle c) = e \<longrightarrow>
            step (Attempt a) sy =
              Some (sy\<lparr>inst := i\<lparr>entries := fmupd e (finsert (handle c) s) (entries i)\<rparr>,
                       calls := (calls sy)(a \<mapsto> c\<lparr>at := Decided True\<rparr>)\<rparr>))"
proof -
  note tx = Wait_tx_held_entry [OF assms]
  have "step (Attempt a) sy =
      Some (sy\<lparr>inst := i\<lparr>entries := fmupd e (finsert (handle c) s) (entries i)\<rparr>,
               calls := (calls sy)(a \<mapsto> c\<lparr>at := Decided True\<rparr>)\<rparr>)"
    if "inst sy = i" "calls sy a = Some c" "at c = Pending" "ent (handle c) = e"
    using that tx [of "ctxDone c" "priority (handle c)" "handle c"] by simp
  with tx show ?thesis by blast
qed

theorem Wait_shares_held_entry_witness:
  "fmlookup (entries contended_inst) entry1 = Some {|handle1|} \<and>
   \<not> haveRoom contended_inst \<and> First (waitersByPriority contended_inst) = Some 7 \<and>
   Wait_tx contended_inst False entry1 0 handle2 =
     Return True (contended_inst\<lparr>entries := fmupd entry1 {|handle2, handle1|} (entries contended_inst)\<rparr>) \<and>
   step (Attempt 2) contended_state =
     Some (contended_state
            \<lparr>inst := contended_inst\<lparr>entries := fmupd entry1 {|handle2, handle1|} (entries contended_inst)\<rparr>,
             calls := (calls contended_state)(2 \<mapsto> \<lparr>handle = handle2, ctxDone = False, at = Decided True\<rparr>)\<rparr>)"
proof -
  let ?c = "\<lparr>handle = handle2, ctxDone = False, at = Pending\<rparr>"
  have held: "fmlookup (entries contended_inst) entry1 = Some {|handle1|}"
    by (simp add: example_defs)
  have full: "\<not> haveRoom contended_inst \<and> First (waitersByPriority contended_inst) = Some 7"
    by (simp add: example_defs eval_defs)
  have call: "inst contended_state = contended_inst \<and> calls contended_state 2 = Some ?c \<and>
      at ?c = Pending \<and> ent (handle ?c) = entry1"
    by (simp add: contended_state_def handle2_def)
  from Wait_shares_held_entry [OF held, of False 0 handle2 contended_state 2 ?c] held full call
  show ?thesis by simp
qed

section \<open>The four registries\<close>

text \<open>
  C5. In every reachable state a handle is in the flat waiter set exactly when it is in
  the bucket of its priority, of its reason and of its entry, and in no other bucket
  (\<open>registries_ok\<close>). \<open>addWaiter\<close> and \<open>deleteWaiter\<close> are each one transaction on all four
  registries and keep this: after \<open>addWaiter\<close> the handle is a waiter, after
  \<open>deleteWaiter\<close> it is in none of the four.
\<close>

theorem registries_updated_together:
  assumes "run xs start = Some s"
  shows "registries_consistent (inst s) \<and>
         registries_ok (inst s) \<and>
         registries_ok (addWaiter eh (inst s)) \<and>
         registries_consistent (addWaiter eh (inst s)) \<and>
         eh |\<in>| waiters (addWaiter eh (inst s)) \<and>
         registries_ok (deleteWaiter eh (inst s)) \<and>
         registries_consistent (deleteWaiter eh (inst s)) \<and>
         deregistered (deleteWaiter eh (inst s)) eh"
proof -
  from assms have ok: "system_ok s" by (rule reachable_ok)
  note reg = system_okD(1) [OF ok]
  note add = registries_ok_addWaiter [OF reg, of eh]
  note del = registries_ok_deleteWaiter [OF reg, of eh]
  have "deregistered (deleteWaiter eh (inst s)) eh"
    using del by (rule registries_ok_deregistered) (simp add: waiters_deleteWaiter)
  with reg add del show ?thesis
    by (simp add: registries_ok_consistent waiters_addWaiter)
qed

theorem registries_updated_together_witness:
  "run contended start = Some contended_state \<and>
   registries_consistent (inst contended_state) \<and>
   registries_consistent (addWaiter handle1 (inst contended_state)) \<and>
   registries_consistent (deleteWaiter handle3 (inst contended_state)) \<and>
   deregistered (deleteWaiter handle3 (inst contended_state)) handle3"
  using registries_updated_together [OF run_contended, of handle1]
    registries_updated_together [OF run_contended, of handle3] run_contended
  by simp

section \<open>The first priority\<close>

text \<open>
  C6. While a call is pending, its handle is in the bucket of its priority in the
  by-priority registry, so a first priority exists (and it is at least the call's own),
  the admission transaction of that call does not panic, and no call of a reachable
  state has panicked. The transaction does abort, with the panic of the source, on an
  instance where the entry has no holder and no first priority exists.
\<close>

theorem pending_call_never_panics:
  assumes "run xs start = Some s" and "calls s a = Some c" and "at c = Pending"
  shows "in_bucket (waitersByPriority (inst s)) (priority (handle c)) (handle c) \<and>
         (\<exists>topPrio. First (waitersByPriority (inst s)) = Some topPrio \<and>
            priority (handle c) \<le> topPrio) \<and>
         (\<forall>msg. Wait_tx (inst s) (ctxDone c) (ent (handle c)) (priority (handle c)) (handle c)
            \<noteq> Panic msg) \<and>
         (\<forall>a' c'. calls s a' = Some c' \<longrightarrow> at c' \<noteq> Panicked) \<and>
         (\<forall>i e d p eh. fmlookup (entries i) e = None \<and> First (waitersByPriority i) = None \<longrightarrow>
            Wait_tx i d e p eh = Panic ''y u no waiting'')"
proof -
  from assms(1) have ok: "system_ok s" by (rule reachable_ok)
  note reg = system_okD(1) [OF ok]
  note h = pending_registered [OF ok assms(2,3)]
  have abort: "Wait_tx i d e p eh = Panic ''y u no waiting''"
    if "fmlookup (entries i) e = None" "First (waitersByPriority i) = None" for i e d p eh
    using that by (simp add: Wait_tx_new_entry)
  from reg h have bucket: "in_bucket (waitersByPriority (inst s)) (priority (handle c)) (handle c)"
    by (simp add: registries_ok_def index_ok_def)
  from pending_First [OF reg h] obtain topPrio
    where top: "First (waitersByPriority (inst s)) = Some topPrio" by auto
  with in_bucket_dom [OF bucket] have "priority (handle c) \<le> topPrio"
    by (simp add: First_Some_iff)
  moreover have "at c' \<noteq> Panicked" if "calls s a' = Some c'" for a' c'
    using system_okD(3) [OF ok that] by (auto simp: call_ok_def)
  ultimately show ?thesis
    using bucket top pending_no_Panic [OF reg h] abort by blast
qed

theorem pending_call_never_panics_witness:
  "run contended start = Some contended_state \<and>
   calls contended_state 2 = Some \<lparr>handle = handle2, ctxDone = False, at = Pending\<rparr> \<and>
   in_bucket (waitersByPriority (inst contended_state)) 0 handle2 \<and>
   (\<exists>topPrio. First (waitersByPriority (inst contended_state)) = Some topPrio \<and> 0 \<le> topPrio) \<and>
   (\<forall>msg. Wait_tx (inst contended_state) False entry1 0 handle2 \<noteq> Panic msg)"
proof -
  have c2: "calls contended_state 2 = Some \<lparr>handle = handle2, ctxDone = False, at = Pending\<rparr>"
    by (simp add: example_defs)
  from pending_call_never_panics [OF run_contended c2] run_contended c2
  show ?thesis by (simp add: handle2_def)
qed

section \<open>Changing the capacity\<close>

text \<open>
  C7. \<open>SetMaxEntries\<close> and \<open>SetNoMaxEntries\<close> leave the entries table and the four waiter
  registries as they are. After \<open>SetMaxEntries n\<close> with \<open>n\<close> not above the number of
  occupied entries (zero included), no handle is admitted to an entry without holders,
  while an entry that is held can still be shared.
\<close>

theorem capacity_setters_keep_holders:
  "entries (SetMaxEntries n i) = entries i \<and>
   waiters (SetMaxEntries n i) = waiters i \<and>
   waitersByPriority (SetMaxEntries n i) = waitersByPriority i \<and>
   waitersByReason (SetMaxEntries n i) = waitersByReason i \<and>
   waitersByEntry (SetMaxEntries n i) = waitersByEntry i \<and>
   entries (SetNoMaxEntries i) = entries i \<and>
   waiters (SetNoMaxEntries i) = waiters i \<and>
   waitersByPriority (SetNoMaxEntries i) = waitersByPriority i \<and>
   waitersByReason (SetNoMaxEntries i) = waitersByReason i \<and>
   waitersByEntry (SetNoMaxEntries i) = waitersByEntry i \<and>
   maxEntries (SetNoMaxEntries i) = maxEntries i \<and>
   Timeout (SetMaxEntries n i) = Timeout i \<and> Timeout (SetNoMaxEntries i) = Timeout i \<and>
   (n \<le> Len (entries i) \<and> fmlookup (entries i) e = None \<longrightarrow>
      (\<forall>i'. Wait_tx (SetMaxEntries n i) d e p eh \<noteq> Return True i')) \<and>
   (\<forall>s. fmlookup (entries i) e = Some s \<longrightarrow>
      Wait_tx (SetMaxEntries n i) d e p eh =
        Return True ((SetMaxEntries n i)\<lparr>entries := fmupd e (finsert eh s) (entries i)\<rparr>))"
proof -
  have frame: "entries (SetMaxEntries n i) = entries i" "noMaxEntries (SetMaxEntries n i) = False"
    "maxEntries (SetMaxEntries n i) = n"
    by (simp_all add: SetMaxEntries_def)
  have blocked: "Wait_tx (SetMaxEntries n i) d e p eh \<noteq> Return True i'"
    if "n \<le> Len (entries i)" "fmlookup (entries i) e = None" for i'
  proof -
    from that(1) have "\<not> haveRoom (SetMaxEntries n i)"
      by (simp add: haveRoom_def frame)
    moreover from that(2) have "fmlookup (entries (SetMaxEntries n i)) e = None"
      by (simp add: frame)
    ultimately show ?thesis
      by (simp add: Wait_tx_new_entry split: option.splits)
  qed
  have shared: "Wait_tx (SetMaxEntries n i) d e p eh =
        Return True ((SetMaxEntries n i)\<lparr>entries := fmupd e (finsert eh s) (entries i)\<rparr>)"
    if "fmlookup (entries i) e = Some s" for s
    using Wait_tx_held_entry [of "SetMaxEntries n i" e s] that by (simp add: frame)
  from blocked shared show ?thesis
    by (simp add: SetMaxEntries_def SetNoMaxEntries_def)
qed

theorem capacity_setters_keep_holders_witness:
  "entries (SetMaxEntries 0 contended_inst) = entries contended_inst \<and>
   waiters (SetMaxEntries 0 contended_inst) = waiters contended_inst \<and>
   0 \<le> Len (entries contended_inst) \<and>
   fmlookup (entries contended_inst) entry2 = None \<and>
   (\<forall>i'. Wait_tx (SetMaxEntries 0 contended_inst) False entry2 7 handle3 \<noteq> Return True i')"
proof -
  have pre: "0 \<le> Len (entries contended_inst) \<and> fmlookup (entries contended_inst) entry2 = None"
    by (simp add: example_defs Len_def)
  with capacity_setters_keep_holders [of 0 contended_inst entry2 False 7 handle3]
  show ?thesis by blast
qed

section \<open>Release\<close>

text \<open>
  C8. Let a call have returned the handle \<open>h\<close>, and let the removal scheduled by \<open>Done\<close>
  fire in a reachable state. It takes \<open>h\<close> out of the entries table and nothing else: every
  other holder stays, the rest of the instance is unchanged, and the number of occupied
  entries drops by one if \<open>h\<close> was the last holder of its entry and not at all otherwise.
  After any further transactions \<open>h\<close> is still in no holder set, so the removal scheduled
  by a second \<open>Done\<close> leaves the state as it is: capacity is freed once. More generally,
  removing a handle that holds nothing changes nothing in a reachable state, removing
  twice in a row is removing once, and \<open>deleteFromMapToSet\<close> returns the map as it is when
  the key is absent and when the element is not in the (non-empty) set of the key.
\<close>

theorem release_twice_frees_once:
  assumes "run xs start = Some s" and "calls s a = Some c" and "at c = Returned (Some h)"
    and "run (Done_fires h # ys) s = Some s2"
  shows "(\<forall>k h'. in_bucket (entries (remove h (inst s))) k h' \<longleftrightarrow>
            in_bucket (entries (inst s)) k h' \<and> h' \<noteq> h) \<and>
         (remove h (inst s))\<lparr>entries := entries (inst s)\<rparr> = inst s \<and>
         Len (entries (remove h (inst s))) =
           Len (entries (inst s)) -
             (if fmlookup (entries (inst s)) (ent h) = Some {|h|} then 1 else 0) \<and>
         (\<forall>k. \<not> in_bucket (entries (inst s2)) k h) \<and>
         step (Done_fires h) s2 = Some s2 \<and>
         remove h (inst s2) = inst s2 \<and>
         (\<forall>eh. \<not> in_bucket (entries (inst s)) (ent eh) eh \<longrightarrow> remove eh (inst s) = inst s) \<and>
         remove eh (remove eh i) = remove eh i \<and>
         Len (entries (remove eh (remove eh i))) = Len (entries (remove eh i)) \<and>
         (fmlookup m k = None \<longrightarrow> deleteFromMapToSet m k x = (m, True)) \<and>
         (\<forall>hs. fmlookup m k = Some hs \<and> x |\<notin>| hs \<and> hs \<noteq> {||} \<longrightarrow>
            deleteFromMapToSet m k x = (m, False))"
proof -
  from assms(1) have ok: "system_ok s" by (rule reachable_ok)
  from assms(1) have keyed: "holders_keyed (inst s)" by (rule reachable_holders_keyed)
  from system_okD(2) [OF ok] have ne: "no_empty (entries (inst s))"
    by (simp add: buckets_ok_def)
  from system_okD(3) [OF ok assms(2)] assms(3) have h: "handle c = h"
    by (simp add: call_ok_def)
  have only: "in_bucket (entries (remove h (inst s))) k h' \<longleftrightarrow>
      in_bucket (entries (inst s)) k h' \<and> h' \<noteq> h" for k h'
    using keyed by (auto simp: in_bucket_remove holders_keyed_def)
  have frame: "(remove h (inst s))\<lparr>entries := entries (inst s)\<rparr> = inst s"
    by (simp add: remove_def)
  define s1 where "s1 = s\<lparr>inst := remove h (inst s)\<rparr>"
  have st: "step (Do_remove h) s = Some s1" by (simp add: s1_def)
  with assms(4) have later: "run ys s1 = Some s2" by (simp add: Done_fires_def)
  from ok st have ok1: "system_ok s1" by (rule system_ok_step)
  from assms(2,3) h only have "released s1 a h"
    by (simp add: released_def s1_def)
  with ok1 have rel2: "released s2 a h" using later by (rule released_run)
  then have out2: "\<not> in_bucket (entries (inst s2)) k h" for k
    by (simp add: released_def)
  from ok1 later have ok2: "system_ok s2" by (rule system_ok_run)
  from system_okD(2) [OF ok2] have "no_empty (entries (inst s2))"
    by (simp add: buckets_ok_def)
  then have again: "remove h (inst s2) = inst s2"
    using out2 by (rule remove_non_holder)
  then have step2: "step (Done_fires h) s2 = Some s2"
    by (simp add: Done_fires_def)
  have other: "remove eh (inst s) = inst s" if "\<not> in_bucket (entries (inst s)) (ent eh) eh" for eh
    using ne that by (rule remove_non_holder)
  have twice: "remove eh (remove eh i) = remove eh i"
    by (simp add: remove_def deleteFromMapToSet_twice)
  have absent_key: "deleteFromMapToSet m k x = (m, True)" if "fmlookup m k = None"
    using that by (simp add: deleteFromMapToSet_def)
  have absent_elem: "deleteFromMapToSet m k x = (m, False)"
    if "fmlookup m k = Some hs" "x |\<notin>| hs" "hs \<noteq> {||}" for hs
  proof -
    from that(2) have "hs |-| {|x|} = hs" by auto
    with that(1,3) show ?thesis
      by (simp add: deleteFromMapToSet_def fmupd_same)
  qed
  from only frame Len_remove [OF ne, of h] out2 step2 again other twice absent_key absent_elem
  show ?thesis by simp
qed

theorem release_twice_frees_once_witness:
  "run shared start = Some shared_state \<and>
   calls shared_state 1 = Some \<lparr>handle = handle1, ctxDone = False, at = Returned (Some handle1)\<rparr> \<and>
   run (Done_fires handle1 # later) shared_state = Some later_state \<and>
   in_bucket (entries (inst shared_state)) entry1 handle1 \<and>
   \<not> in_bucket (entries (remove handle1 (inst shared_state))) entry1 handle1 \<and>
   in_bucket (entries (remove handle1 (inst shared_state))) entry1 handle2 \<and>
   in_bucket (entries (remove handle1 (inst shared_state))) entry2 handle3 \<and>
   Len (entries (inst shared_state)) = 2 \<and>
   Len (entries (remove handle1 (inst shared_state))) = 2 \<and>
   step (Done_fires handle1) later_state = Some later_state \<and>
   Len (entries (remove handle3 (inst shared_state))) = 1 \<and>
   step (Done_fires handle3) (shared_state\<lparr>inst := remove handle3 (inst shared_state)\<rparr>) =
     Some (shared_state\<lparr>inst := remove handle3 (inst shared_state)\<rparr>)"
proof -
  let ?c1 = "\<lparr>handle = handle1, ctxDone = False, at = Returned (Some handle1)\<rparr>"
  let ?c3 = "\<lparr>handle = handle3, ctxDone = False, at = Returned (Some handle3)\<rparr>"
  have c1: "calls shared_state 1 = Some ?c1" and c3: "calls shared_state 3 = Some ?c3"
    by (simp_all add: shared_state_def)
  have r1: "at ?c1 = Returned (Some handle1)" and r3: "at ?c3 = Returned (Some handle3)"
    by simp_all
  have fire3: "run (Done_fires handle3 # []) shared_state =
      Some (shared_state\<lparr>inst := remove handle3 (inst shared_state)\<rparr>)"
    by (simp add: Done_fires_def)
  have before: "in_bucket (entries (inst shared_state)) entry1 handle1 \<and>
      in_bucket (entries (inst shared_state)) entry1 handle2 \<and>
      in_bucket (entries (inst shared_state)) entry2 handle3 \<and>
      handle2 \<noteq> handle1 \<and> handle3 \<noteq> handle1 \<and>
      Len (entries (inst shared_state)) = 2 \<and>
      fmlookup (entries (inst shared_state)) (ent handle1) \<noteq> Some {|handle1|} \<and>
      fmlookup (entries (inst shared_state)) (ent handle3) = Some {|handle3|}"
    by (simp add: example_defs eval_defs in_bucket_def)
  from release_twice_frees_once [OF run_shared c1 r1 run_later,
      where eh = handle1 and i = "inst shared_state" and m = "entries (inst shared_state)"
        and k = entry1 and x = handle1]
  have only1: "\<forall>k h'. in_bucket (entries (remove handle1 (inst shared_state))) k h' \<longleftrightarrow>
        in_bucket (entries (inst shared_state)) k h' \<and> h' \<noteq> handle1"
    and len1: "Len (entries (remove handle1 (inst shared_state))) =
        Len (entries (inst shared_state)) -
          (if fmlookup (entries (inst shared_state)) (ent handle1) = Some {|handle1|} then 1 else 0)"
    and again1: "step (Done_fires handle1) later_state = Some later_state"
    by blast+
  from release_twice_frees_once [OF run_shared c3 r3 fire3,
      where eh = handle3 and i = "inst shared_state" and m = "entries (inst shared_state)"
        and k = entry2 and x = handle3]
  have len3: "Len (entries (remove handle3 (inst shared_state))) =
        Len (entries (inst shared_state)) -
          (if fmlookup (entries (inst shared_state)) (ent handle3) = Some {|handle3|} then 1 else 0)"
    and again3: "step (Done_fires handle3) (shared_state\<lparr>inst := remove handle3 (inst shared_state)\<rparr>) =
        Some (shared_state\<lparr>inst := remove handle3 (inst shared_state)\<rparr>)"
    by blast+
  from only1 before
  have "\<not> in_bucket (entries (remove handle1 (inst shared_state))) entry1 handle1 \<and>
      in_bucket (entries (remove handle1 (inst shared_state))) entry1 handle2 \<and>
      in_bucket (entries (remove handle1 (inst shared_state))) entry2 handle3"
    by blast
  moreover from len1 len3 before
  have "Len (entries (remove handle1 (inst shared_state))) = 2 \<and>
      Len (entries (remove handle3 (inst shared_state))) = 1"
    by simp
  ultimately show ?thesis
    using run_shared c1 run_later before again1 again3 by blast
qed


section \<open>Restoring the limit\<close>

text \<open>
  C9. \<open>SetMaxEntries n\<close> clears the flag and sets the limit in one step; after
  \<open>SetNoMaxEntries\<close> it makes the room test the comparison with \<open>n\<close> again.
\<close>

theorem SetMaxEntries_restores_limit:
  "noMaxEntries (SetMaxEntries n i) = False \<and>
   maxEntries (SetMaxEntries n i) = n \<and>
   noMaxEntries (SetMaxEntries n (SetNoMaxEntries i)) = False \<and>
   maxEntries (SetMaxEntries n (SetNoMaxEntries i)) = n \<and>
   haveRoom (SetNoMaxEntries i) \<and>
   haveRoom (SetMaxEntries n (SetNoMaxEntries i)) = (Len (entries i) < n)"
  by (simp add: SetMaxEntries_def SetNoMaxEntries_def haveRoom_def)


theorem SetMaxEntries_restores_limit_witness:
  "haveRoom (SetNoMaxEntries contended_inst) \<and>
   \<not> haveRoom (SetMaxEntries 1 (SetNoMaxEntries contended_inst)) \<and>
   haveRoom (SetMaxEntries 2 (SetNoMaxEntries contended_inst))"
proof -
  have len: "Len (entries contended_inst) = 1"
    by (simp add: example_defs eval_defs)
  from SetMaxEntries_restores_limit [of 1 contended_inst]
    SetMaxEntries_restores_limit [of 2 contended_inst] len
  show ?thesis by simp
qed

section \<open>Occupied entries\<close>

text \<open>
  C10. In every reachable state no key of the entries table or of a keyed registry is
  bound to an empty set, so the length of the entries table is the number of entries with
  at least one holder. \<open>addToMapToSet\<close> binds the key to a non-empty set, and
  \<open>deleteFromMapToSet\<close> removes the key with its last element.
\<close>

theorem no_empty_holder_sets:
  assumes "run xs start = Some s"
  shows "no_empty (entries (inst s)) \<and> no_empty (waitersByPriority (inst s)) \<and>
         no_empty (waitersByReason (inst s)) \<and> no_empty (waitersByEntry (inst s)) \<and>
         Len (entries (inst s)) =
           int (card {e. \<exists>hs. fmlookup (entries (inst s)) e = Some hs \<and> hs \<noteq> {||}}) \<and>
         fmlookup (addToMapToSet (entries (inst s)) e eh) e \<noteq> Some {||} \<and>
         no_empty (addToMapToSet (entries (inst s)) e eh) \<and>
         no_empty (fst (deleteFromMapToSet (entries (inst s)) e eh)) \<and>
         (fmlookup (entries (inst s)) e = Some {|eh|} \<longrightarrow>
            fmlookup (fst (deleteFromMapToSet (entries (inst s)) e eh)) e = None)"
proof -
  from assms have ok: "system_ok s" by (rule reachable_ok)
  from system_okD(2) [OF ok] have ne: "no_empty (entries (inst s))"
    "no_empty (waitersByPriority (inst s))" "no_empty (waitersByReason (inst s))"
    "no_empty (waitersByEntry (inst s))"
    by (simp_all add: buckets_ok_def)
  from ne Len_occupied [OF ne(1)] show ?thesis
    by (simp add: no_empty_add no_empty_delete lookup_addToMapToSet lookup_deleteFromMapToSet)
qed

theorem no_empty_holder_sets_witness:
  "run contended start = Some contended_state \<and>
   no_empty (entries (inst contended_state)) \<and>
   no_empty (waitersByPriority (inst contended_state)) \<and>
   Len (entries (inst contended_state)) = 1 \<and>
   card {e. \<exists>hs. fmlookup (entries (inst contended_state)) e = Some hs \<and> hs \<noteq> {||}} = 1 \<and>
   fmlookup (entries (inst contended_state)) entry1 = Some {|handle1|} \<and>
   fmlookup (fst (deleteFromMapToSet (entries (inst contended_state)) entry1 handle1)) entry1 = None"
proof -
  have len: "Len (entries (inst contended_state)) = 1"
    by (simp add: example_defs eval_defs)
  have held: "fmlookup (entries (inst contended_state)) entry1 = Some {|handle1|}"
    by (simp add: example_defs)
  from no_empty_holder_sets [OF run_contended, of entry1 handle1] len held run_contended
  show ?thesis by simp
qed

end
